theory Spec2Isabelle
  imports Main "HOL-Library.Word" "HOL-Library.Signed_Division" "HOL-Library.Monad_Syntax"
begin

unbundle bit_operations_syntax

section \<open>Data model (cache\_simulator.h)\<close>

text \<open>
  The C++ type \<open>int\<close> is a 32-bit two's complement integer and \<open>uint32_t\<close> a 32-bit
  unsigned one; both are modelled as \<open>32 word\<close>. Addition and multiplication wrap
  around: for an \<open>int\<close> that is the two's complement result of an overflow, which the
  language leaves undefined. \<open>sint\<close> reads the signed value of an \<open>int\<close>, and the order
  \<open><\<close> on words is the unsigned order used for the two \<open>uint32_t\<close> timestamps. Assigning
  an \<open>int\<close> to a \<open>uint32_t\<close> field (or passing a \<open>uint32_t\<close> where an \<open>int\<close> is expected)
  keeps the bits.
\<close>

type_synonym i32 = "32 word"
type_synonym u32 = "32 word"

record Slot =
  tag :: i32
  valid :: bool
  dirty :: bool
  load_ts :: u32
  access_ts :: u32

text \<open>
  \<open>struct Set\<close> has the single field \<open>slots\<close>, a \<open>std::vector<Slot>\<close>; it is modelled by
  that vector. A position in the vector is a way.
\<close>

type_synonym SlotSet = "Slot list"

record Cache =
  numSets :: i32
  numBlocks :: i32
  numBytes :: i32
  handleMiss :: string
  handleWrite :: string
  handleEviction :: string
  sets :: "SlotSet list"
  loadCount :: i32
  storeCount :: i32
  loadHits :: i32
  loadMisses :: i32
  storeHits :: i32
  storeMisses :: i32
  totalCycles :: i32

text \<open>
  A \<open>Cache\<close> object as \<open>main\<close> declares it (\<open>Cache cache;\<close>): the statistics carry their
  default member initialisers, the strings and the vector are empty. The three sizes have
  no initialiser; \<open>cacheSetUp\<close> assigns them before anything reads them, so the value
  chosen here is never observed.
\<close>

definition default_Cache :: Cache where
  "default_Cache =
     \<lparr>numSets = 0, numBlocks = 0, numBytes = 0,
      handleMiss = [], handleWrite = [], handleEviction = [],
      sets = [],
      loadCount = 0, storeCount = 0, loadHits = 0, loadMisses = 0,
      storeHits = 0, storeMisses = 0, totalCycles = 0\<rparr>"

section \<open>Argument validation\<close>

definition checkPowTwo :: "i32 \<Rightarrow> bool" where
  "checkPowTwo x =
     (if sint x < 1 then False
      else if x AND (x - 1) = 0 then True
      else False)"

text \<open>Returns 0 for success and 1 for bad input, as the source does.\<close>

definition validateArguments ::
  "i32 \<Rightarrow> i32 \<Rightarrow> i32 \<Rightarrow> string \<Rightarrow> string \<Rightarrow> string \<Rightarrow> i32" where
  "validateArguments nSets nBlocks blockSize hMiss hWrite hEviction =
     (if sint nSets < 1 \<or> \<not> checkPowTwo nSets then 1
      else if sint nBlocks < 1 \<or> \<not> checkPowTwo nBlocks then 1
      else if sint blockSize < 4 \<or> \<not> checkPowTwo blockSize then 1
      else if hMiss \<noteq> ''write-allocate'' \<and> hMiss \<noteq> ''no-write-allocate'' then 1
      else if hWrite \<noteq> ''write-through''
              \<and> (if hWrite = ''write-back'' then hMiss = ''no-write-allocate'' else True)
           then 1
      else if hEviction \<noteq> ''lru'' \<and> hEviction \<noteq> ''fifo'' then 1
      else 0)"

section \<open>Address decoding\<close>

text \<open>
  \<open>int offset = log2(cache.numBytes)\<close> converts its argument to \<open>double\<close>, takes the binary
  logarithm and truncates the result to \<open>int\<close>. For an argument of at least 1 that is the
  integer logarithm \<open>ilog2\<close>. For an argument below 1 the logarithm is minus infinity or
  not a number and the conversion to \<open>int\<close> is undefined: the model returns \<open>None\<close>.
\<close>

fun ilog2 :: "nat \<Rightarrow> nat" where
  "ilog2 n = (if n < 2 then 0 else Suc (ilog2 (n div 2)))"

declare ilog2.simps [simp del]

definition log2 :: "i32 \<Rightarrow> nat option" where
  "log2 x = (if sint x < 1 then None else Some (ilog2 (nat (sint x))))"

text \<open>
  \<open>>>\<close> on an \<open>int\<close> is the arithmetic shift (\<open>signed_drop_bit\<close>), \<open><<\<close> is \<open>push_bit\<close>.
  A shift count that is not below the width 32 is undefined behaviour: \<open>None\<close>.
\<close>

definition shr :: "i32 \<Rightarrow> nat \<Rightarrow> i32 option" where
  "shr x n = (if n < 32 then Some (signed_drop_bit n x) else None)"

definition shl :: "i32 \<Rightarrow> nat \<Rightarrow> i32 option" where
  "shl x n = (if n < 32 then Some (push_bit n x) else None)"

definition calculateIndex :: "i32 \<Rightarrow> Cache \<Rightarrow> i32 option" where
  "calculateIndex address cache = do {
     offset \<leftarrow> log2 (numBytes cache);
     index \<leftarrow> log2 (numSets cache);
     shifted \<leftarrow> shr address offset;
     one_shl \<leftarrow> shl 1 index;
     let mask = one_shl - 1;
     Some (shifted AND mask)
   }"

definition calculateTag :: "i32 \<Rightarrow> Cache \<Rightarrow> i32 option" where
  "calculateTag address cache = do {
     offset \<leftarrow> log2 (numBytes cache);
     index \<leftarrow> log2 (numSets cache);
     shr address (offset + index)
   }"

section \<open>Set-up\<close>

definition init_slot :: Slot where
  "init_slot = \<lparr>tag = 0, valid = False, dirty = False, load_ts = 0, access_ts = 0\<rparr>"

text \<open>
  The two counting loops run \<open>numSets\<close> and \<open>numBlocks\<close> times (not at all for a count below
  1) and \<open>push_back\<close> appends to the vector.
\<close>

definition cacheSetUp ::
  "Cache \<Rightarrow> i32 \<Rightarrow> i32 \<Rightarrow> i32 \<Rightarrow> string \<Rightarrow> string \<Rightarrow> string \<Rightarrow> Cache" where
  "cacheSetUp cache nSets nBlocks nBytes hMiss hWrite hEviction =
     cache\<lparr>sets := sets cache @
                replicate (nat (sint nSets)) (replicate (nat (sint nBlocks)) init_slot),
            numSets := nSets, numBlocks := nBlocks, numBytes := nBytes,
            handleMiss := hMiss, handleWrite := hWrite, handleEviction := hEviction\<rparr>"

section \<open>Slots and pointers to slots\<close>

text \<open>
  \<open>cache.sets[index]\<close> with an \<open>int\<close> index: \<open>operator[]\<close> does not check its argument, and
  an index that is negative or not below the size is undefined behaviour (\<open>None\<close>).
\<close>

definition set_at :: "Cache \<Rightarrow> i32 \<Rightarrow> SlotSet option" where
  "set_at cache index =
     (if 0 \<le> sint index \<and> nat (sint index) < length (sets cache)
      then Some (sets cache ! nat (sint index)) else None)"

text \<open>
  Every \<open>Slot *\<close> of the program is either null or points into the set selected by the
  \<open>index\<close> in scope, so a pointer is modelled as \<open>nat option\<close>: \<open>None\<close> is \<open>nullptr\<close> and
  \<open>Some w\<close> points to way \<open>w\<close> of that set. \<open>write_slot\<close> is an assignment through such a
  pointer; through a pointer outside the set it is undefined (\<open>None\<close>).
\<close>

definition write_slot :: "Cache \<Rightarrow> i32 \<Rightarrow> nat \<Rightarrow> (Slot \<Rightarrow> Slot) \<Rightarrow> Cache option" where
  "write_slot cache index w f = do {
     s \<leftarrow> set_at cache index;
     if w < length s
     then Some (cache\<lparr>sets := (sets cache)[nat (sint index) := s[w := f (s ! w)]]\<rparr>)
     else None
   }"

section \<open>Lookup\<close>

text \<open>
  A range-for loop that returns at the first slot satisfying \<open>P\<close>; \<open>w\<close> is the way of the
  head of the remaining slots.
\<close>

fun first_way :: "(Slot \<Rightarrow> bool) \<Rightarrow> SlotSet \<Rightarrow> nat \<Rightarrow> nat option" where
  "first_way P [] w = None"
| "first_way P (s # ss) w = (if P s then Some w else first_way P ss (Suc w))"

text \<open>The outer \<open>option\<close> is the undefined behaviour, the inner one the pointer.\<close>

definition findBlock :: "i32 \<Rightarrow> i32 \<Rightarrow> Cache \<Rightarrow> nat option option" where
  "findBlock t index cache = do {
     s \<leftarrow> set_at cache index;
     Some (first_way (\<lambda>slot. valid slot \<and> tag slot = t) s 0)
   }"

section \<open>Replacement\<close>

text \<open>\<open>cache.numBytes / 4\<close>: division of \<open>int\<close>s truncates towards zero.\<close>

definition div4 :: "i32 \<Rightarrow> i32" where
  "div4 x = word_of_int (sint x sdiv 4)"

text \<open>
  \<open>100 * cache.numBytes / 4\<close>, the cost of moving one block: the product and the quotient
  are taken over the integers and the result is what \<open>+=\<close> adds to the \<open>int\<close> total. As
  long as \<open>100 * numBytes\<close> is in the range of \<open>int\<close> this is the value of the expression
  as written. For a larger block size, which \<open>validateArguments\<close> accepts from \<open>2^25\<close> on,
  the product as written leaves the range of \<open>int\<close> and the language defines no value for
  it; the model keeps the integer quotient \<open>25 * numBytes\<close>, which is what the expression
  compiled as one multiplication by 25 adds.
\<close>

definition mul100_div4 :: "i32 \<Rightarrow> i32" where
  "mul100_div4 x = word_of_int ((100 * sint x) sdiv 4)"

text \<open>
  The minimum search of \<open>findLRUBlock\<close> and \<open>findFIFOBlock\<close>: \<open>temp\<close> starts at way 0 and
  moves to a way whose timestamp \<open>ts\<close> is strictly smaller (unsigned comparison).
\<close>

definition min_way :: "(Slot \<Rightarrow> u32) \<Rightarrow> SlotSet \<Rightarrow> nat" where
  "min_way ts s =
     foldl (\<lambda>temp w. if ts (s ! w) < ts (s ! temp) then w else temp) 0 [0..<length s]"

text \<open>
  The source passes \<open>cache.sets[index]\<close> by reference together with the cache; the model
  passes \<open>index\<close>. \<open>set.slots[0]\<close> of an empty set is undefined.
\<close>

definition findLRUBlock :: "i32 \<Rightarrow> Cache \<Rightarrow> (nat \<times> Cache) option" where
  "findLRUBlock index cache = do {
     s \<leftarrow> set_at cache index;
     if s = [] then None
     else do {
       let temp = min_way access_ts s;
       if dirty (s ! temp) \<and> handleWrite cache = ''write-back''
       then do {
         cache \<leftarrow> write_slot cache index temp (\<lambda>slot. slot\<lparr>valid := False, dirty := False\<rparr>);
         Some (temp, cache\<lparr>totalCycles := totalCycles cache + mul100_div4 (numBytes cache)\<rparr>)
       }
       else Some (temp, cache)
     }
   }"

definition findFIFOBlock :: "i32 \<Rightarrow> Cache \<Rightarrow> (nat \<times> Cache) option" where
  "findFIFOBlock index cache = do {
     s \<leftarrow> set_at cache index;
     if s = [] then None
     else do {
       let temp = min_way load_ts s;
       if dirty (s ! temp) \<and> handleWrite cache = ''write-back''
       then do {
         cache \<leftarrow> write_slot cache index temp (\<lambda>slot. slot\<lparr>valid := False, dirty := False\<rparr>);
         Some (temp, cache\<lparr>totalCycles := totalCycles cache + mul100_div4 (numBytes cache)\<rparr>)
       }
       else Some (temp, cache)
     }
   }"

definition findReplacementBlock :: "i32 \<Rightarrow> Cache \<Rightarrow> (nat \<times> Cache) option" where
  "findReplacementBlock index cache = do {
     s \<leftarrow> set_at cache index;
     case first_way (\<lambda>slot. valid slot = False) s 0 of
       Some temp \<Rightarrow> Some (temp, cache)
     | None \<Rightarrow>
         if handleEviction cache = ''lru'' then findLRUBlock index cache
         else findFIFOBlock index cache
   }"

section \<open>Access handlers\<close>

definition handleLoad :: "Cache \<Rightarrow> i32 \<Rightarrow> i32 \<Rightarrow> nat option \<Rightarrow> Cache option" where
  "handleLoad cache index t hit = do {
     let cache = cache\<lparr>loadCount := loadCount cache + 1\<rparr>;
     case hit of
       Some h \<Rightarrow> do {
         let cache = cache\<lparr>loadHits := loadHits cache + 1\<rparr>;
         let cache = cache\<lparr>totalCycles := totalCycles cache + 1\<rparr>;
         if handleEviction cache = ''lru''
         then write_slot cache index h (\<lambda>slot. slot\<lparr>access_ts := totalCycles cache\<rparr>)
         else Some cache
       }
     | None \<Rightarrow> do {
         let cache = cache\<lparr>loadMisses := loadMisses cache + 1\<rparr>;
         let cache = cache\<lparr>totalCycles := totalCycles cache + mul100_div4 (numBytes cache)\<rparr>;
         (temp, cache) \<leftarrow> findReplacementBlock index cache;
         let cache = cache\<lparr>totalCycles := totalCycles cache + 1\<rparr>;
         cache \<leftarrow> write_slot cache index temp (\<lambda>slot. slot\<lparr>valid := True\<rparr>);
         cache \<leftarrow> write_slot cache index temp (\<lambda>slot. slot\<lparr>tag := t\<rparr>);
         if handleEviction cache = ''lru''
         then write_slot cache index temp (\<lambda>slot. slot\<lparr>access_ts := totalCycles cache\<rparr>)
         else write_slot cache index temp (\<lambda>slot. slot\<lparr>load_ts := totalCycles cache\<rparr>)
       }
   }"

definition handleStore :: "Cache \<Rightarrow> i32 \<Rightarrow> i32 \<Rightarrow> nat option \<Rightarrow> Cache option" where
  "handleStore cache index t hit = do {
     let cache = cache\<lparr>storeCount := storeCount cache + 1\<rparr>;
     case hit of
       Some h \<Rightarrow> do {
         let cache = cache\<lparr>storeHits := storeHits cache + 1\<rparr>;
         cache \<leftarrow> write_slot cache index h (\<lambda>slot. slot\<lparr>access_ts := totalCycles cache\<rparr>);
         if handleWrite cache = ''write-back''
         then do {
           cache \<leftarrow> write_slot cache index h (\<lambda>slot. slot\<lparr>dirty := True\<rparr>);
           Some (cache\<lparr>totalCycles := totalCycles cache + 1\<rparr>)
         }
         else Some (cache\<lparr>totalCycles := totalCycles cache + 100\<rparr>)
       }
     | None \<Rightarrow> do {
         let cache = cache\<lparr>storeMisses := storeMisses cache + 1\<rparr>;
         if handleMiss cache = ''no-write-allocate''
         then Some (cache\<lparr>totalCycles := totalCycles cache + 100\<rparr>)
         else do {
           let cache = cache\<lparr>totalCycles := totalCycles cache + 100 * div4 (numBytes cache)\<rparr>;
           (temp, cache) \<leftarrow> findReplacementBlock index cache;
           let cache = cache\<lparr>totalCycles := totalCycles cache + 1\<rparr>;
           cache \<leftarrow> write_slot cache index temp (\<lambda>slot. slot\<lparr>valid := True\<rparr>);
           cache \<leftarrow> write_slot cache index temp (\<lambda>slot. slot\<lparr>tag := t\<rparr>);
           cache \<leftarrow> (if handleEviction cache = ''lru''
                     then write_slot cache index temp (\<lambda>slot. slot\<lparr>access_ts := totalCycles cache\<rparr>)
                     else write_slot cache index temp (\<lambda>slot. slot\<lparr>load_ts := totalCycles cache\<rparr>));
           if handleWrite cache = ''write-back''
           then write_slot cache index temp (\<lambda>slot. slot\<lparr>dirty := True\<rparr>)
           else Some cache
         }
       }
   }"

section \<open>The simulator\<close>

definition cacheSimulator :: "Cache \<Rightarrow> char \<Rightarrow> i32 \<Rightarrow> Cache option" where
  "cacheSimulator cache loadStore address = do {
     index \<leftarrow> calculateIndex address cache;
     t \<leftarrow> calculateTag address cache;
     hit \<leftarrow> findBlock t index cache;
     if loadStore = CHR ''l''
     then handleLoad cache index t hit
     else handleStore cache index t hit
   }"

text \<open>
  The loop of \<open>main\<close>: one call of \<open>cacheSimulator\<close> for each record of the trace, in
  order.
\<close>

fun run_trace :: "Cache \<Rightarrow> (char \<times> i32) list \<Rightarrow> Cache option" where
  "run_trace cache [] = Some cache"
| "run_trace cache ((loadStore, address) # rest) = do {
     cache \<leftarrow> cacheSimulator cache loadStore address;
     run_trace cache rest
   }"

section \<open>Notions used by the properties\<close>

text \<open>
  The values of the locals \<open>offset\<close> and \<open>index\<close> of \<open>calculateIndex\<close> and \<open>calculateTag\<close>
  for sizes of at least 1: the number of offset bits and of index bits.
\<close>

definition offsetBits :: "Cache \<Rightarrow> nat" where
  "offsetBits c = ilog2 (nat (sint (numBytes c)))"

definition indexBits :: "Cache \<Rightarrow> nat" where
  "indexBits c = ilog2 (nat (sint (numSets c)))"

text \<open>The configuration stored in the cache is one that \<open>validateArguments\<close> accepts.\<close>

definition valid_config :: "Cache \<Rightarrow> bool" where
  "valid_config c \<longleftrightarrow>
     validateArguments (numSets c) (numBlocks c) (numBytes c)
       (handleMiss c) (handleWrite c) (handleEviction c) = 0"

text \<open>The table has \<open>numSets\<close> sets of \<open>numBlocks\<close> slots each.\<close>

definition shape_ok :: "Cache \<Rightarrow> bool" where
  "shape_ok c \<longleftrightarrow>
     length (sets c) = nat (sint (numSets c)) \<and>
     (\<forall>s \<in> set (sets c). length s = nat (sint (numBlocks c)))"

text \<open>A dirty slot is valid, and there are dirty slots under write-back only.\<close>

definition clean_inv :: "Cache \<Rightarrow> bool" where
  "clean_inv c \<longleftrightarrow>
     (\<forall>s \<in> set (sets c). \<forall>slot \<in> set s.
        dirty slot \<longrightarrow> valid slot \<and> handleWrite c = ''write-back'')"

text \<open>No two valid slots of a set carry the same tag.\<close>

definition unique_tags :: "SlotSet \<Rightarrow> bool" where
  "unique_tags s \<longleftrightarrow>
     (\<forall>i \<in> {..<length s}. \<forall>j \<in> {..<length s}.
        i \<noteq> j \<and> valid (s ! i) \<and> valid (s ! j) \<longrightarrow> tag (s ! i) \<noteq> tag (s ! j))"

definition cache_inv :: "Cache \<Rightarrow> bool" where
  "cache_inv c \<longleftrightarrow>
     valid_config c \<and> shape_ok c \<and> clean_inv c \<and> (\<forall>s \<in> set (sets c). unique_tags s)"

text \<open>
  The states the program goes through: \<open>main\<close> sets a default-initialised cache up with
  arguments that \<open>validateArguments\<close> accepted, then calls \<open>cacheSimulator\<close> once for each
  record of the trace.
\<close>

inductive reachable :: "Cache \<Rightarrow> bool" where
  init: "validateArguments nSets nBlocks nBytes hMiss hWrite hEviction = 0 \<Longrightarrow>
         reachable (cacheSetUp default_Cache nSets nBlocks nBytes hMiss hWrite hEviction)"
| step: "reachable c \<Longrightarrow> cacheSimulator c loadStore address = Some c' \<Longrightarrow> reachable c'"

code_pred reachable .

text \<open>The slot a pointer \<open>w\<close> into the set at \<open>index\<close> points to.\<close>

definition slot_at :: "Cache \<Rightarrow> i32 \<Rightarrow> nat \<Rightarrow> Slot option" where
  "slot_at c index w = do {
     s \<leftarrow> set_at c index;
     if w < length s then Some (s ! w) else None
   }"

text \<open>The timestamp the configured eviction policy compares.\<close>

definition policy_ts :: "Cache \<Rightarrow> Slot \<Rightarrow> u32" where
  "policy_ts c = (if handleEviction c = ''lru'' then access_ts else load_ts)"


text \<open>
  What the replacement does to the set \<open>s\<close> at \<open>index\<close>. \<open>victim\<close> is the way it returns:
  the first invalid slot, or else the slot the policy's minimum search ends on.
  \<open>evicts_dirty\<close> says that the set is full and the slot chosen is dirty under write-back,
  \<open>flush\<close> is the state after the body of that \<open>if\<close> in \<open>findLRUBlock\<close> and
  \<open>findFIFOBlock\<close>, \<open>flush_cost\<close> the cycles it adds, and \<open>replaced_slot\<close> the slot as the
  replacement leaves it.
\<close>

definition victim :: "Cache \<Rightarrow> SlotSet \<Rightarrow> nat" where
  "victim c s =
     (case first_way (\<lambda>slot. valid slot = False) s 0 of
        Some w \<Rightarrow> w | None \<Rightarrow> min_way (policy_ts c) s)"

definition evicts_dirty :: "Cache \<Rightarrow> SlotSet \<Rightarrow> bool" where
  "evicts_dirty c s \<longleftrightarrow>
     (\<forall>slot \<in> set s. valid slot) \<and> dirty (s ! min_way (policy_ts c) s)
     \<and> handleWrite c = ''write-back''"

definition flush :: "Cache \<Rightarrow> i32 \<Rightarrow> nat \<Rightarrow> Cache" where
  "flush c index w =
     c\<lparr>sets := (sets c)[nat (sint index) :=
                (sets c ! nat (sint index))[w :=
                   (sets c ! nat (sint index) ! w)\<lparr>valid := False, dirty := False\<rparr>]],
       totalCycles := totalCycles c + mul100_div4 (numBytes c)\<rparr>"

definition flush_cost :: "Cache \<Rightarrow> SlotSet \<Rightarrow> i32" where
  "flush_cost c s = (if evicts_dirty c s then mul100_div4 (numBytes c) else 0)"



definition replaced_slot :: "Cache \<Rightarrow> SlotSet \<Rightarrow> Slot" where
  "replaced_slot c s =
     (if evicts_dirty c s then (s ! victim c s)\<lparr>valid := False, dirty := False\<rparr>
      else s ! victim c s)"

text \<open>
  The last assignments of a miss: the timestamp of the configured policy, and the dirty
  mark of a store under write-back.
\<close>

definition stamp :: "Cache \<Rightarrow> u32 \<Rightarrow> Slot \<Rightarrow> Slot" where
  "stamp c cyc slot =
     (if handleEviction c = ''lru'' then slot\<lparr>access_ts := cyc\<rparr> else slot\<lparr>load_ts := cyc\<rparr>)"

definition mark_dirty :: "Cache \<Rightarrow> Slot \<Rightarrow> Slot" where
  "mark_dirty c slot = (if handleWrite c = ''write-back'' then slot\<lparr>dirty := True\<rparr> else slot)"


text \<open>
  Two example states. \<open>full_cache\<close>: one set of two 4-byte blocks under write-allocate,
  write-back and LRU, after the trace \<open>l 0x1C\<close>, \<open>s 0x24\<close>, \<open>l 0x1C\<close>: both ways are valid,
  way 1 is dirty and was accessed less recently than way 0. \<open>through_cache\<close>: one set of
  one block under no-write-allocate and write-through, as \<open>cacheSetUp\<close> leaves it.
\<close>

definition full_cache :: Cache where
  "full_cache =
     \<lparr>numSets = 1, numBlocks = 2, numBytes = 4,
      handleMiss = ''write-allocate'', handleWrite = ''write-back'', handleEviction = ''lru'',
      sets = [[\<lparr>tag = 7, valid = True, dirty = False, load_ts = 0, access_ts = 203\<rparr>,
               \<lparr>tag = 9, valid = True, dirty = True, load_ts = 0, access_ts = 202\<rparr>]],
      loadCount = 2, storeCount = 1, loadHits = 1, loadMisses = 1,
      storeHits = 0, storeMisses = 1, totalCycles = 203\<rparr>"

text \<open>
  \<open>big_dirty\<close>: one set of one \<open>2^25\<close>-byte block under write-allocate, write-back and
  LRU, after the trace \<open>s 0x0\<close>: the block is valid and dirty. \<open>big_cache\<close>: the same
  geometry under write-through, as \<open>cacheSetUp\<close> leaves it.
\<close>

definition big_dirty :: Cache where
  "big_dirty =
     \<lparr>numSets = 1, numBlocks = 1, numBytes = 33554432,
      handleMiss = ''write-allocate'', handleWrite = ''write-back'', handleEviction = ''lru'',
      sets = [[\<lparr>tag = 0, valid = True, dirty = True, load_ts = 0, access_ts = 838860801\<rparr>]],
      loadCount = 0, storeCount = 1, loadHits = 0, loadMisses = 0,
      storeHits = 0, storeMisses = 1, totalCycles = 838860801\<rparr>"


definition through_cache :: Cache where
  "through_cache =
     cacheSetUp default_Cache 1 1 4 ''no-write-allocate'' ''write-through'' ''lru''"

section \<open>Evaluating the model\<close>

lemmas model_defs =
  cacheSetUp_def default_Cache_def init_slot_def calculateIndex_def calculateTag_def
  log2_def shr_def shl_def set_at_def write_slot_def findBlock_def div4_def
  mul100_div4_def min_way_def
  findLRUBlock_def findFIFOBlock_def findReplacementBlock_def handleLoad_def
  handleStore_def cacheSimulator_def checkPowTwo_def validateArguments_def

section \<open>Arithmetic of the \<open>int\<close> type\<close>

lemma ilog2_pow2: "ilog2 (2 ^ k) = k"
proof (induction k)
  case 0
  show ?case by (simp add: ilog2.simps)
next
  case (Suc k)
  have "\<not> (2::nat) ^ Suc k < 2" by simp
  then have "ilog2 (2 ^ Suc k) = Suc (ilog2 (2 ^ Suc k div 2))"
    by (subst ilog2.simps) simp
  with Suc show ?case by simp
qed

lemma and_pred_nat:
  fixes n :: nat
  assumes "0 < n" "n AND (n - 1) = 0"
  shows "n = 2 ^ ilog2 n"
  using assms
proof (induction n rule: less_induct)
  case (less n)
  show ?case
  proof (cases "n < 2")
    case True
    with less.prems have "n = 1" by simp
    then show ?thesis by (simp add: ilog2.simps)
  next
    case False
    then have il: "ilog2 n = Suc (ilog2 (n div 2))"
      by (subst ilog2.simps) simp
    show ?thesis
    proof (cases "even n")
      case True
      then obtain y where y: "n = 2 * y" by (elim evenE)
      with False have y1: "1 \<le> y" by simp
      have "n - 1 = 2 * (y - 1) + 1" using y y1 by simp
      then have "n AND (n - 1) = 2 * (y AND (y - 1))"
        unfolding y by (subst and_rec) simp
      with less.prems have "y AND (y - 1) = 0" by simp
      moreover have "y < n" "0 < y" using y y1 by simp_all
      ultimately have "y = 2 ^ ilog2 y" using less.IH by blast
      then show ?thesis using y il by simp
    next
      case odd: False
      then obtain y where y: "n = 2 * y + 1" by (elim oddE)
      with False have y1: "1 \<le> y" by simp
      have "n AND (n - 1) = 2 * y"
        unfolding y by (subst and_rec) simp
      with less.prems y1 show ?thesis by simp
    qed
  qed
qed

lemma ilog2_le: "0 < n \<Longrightarrow> 2 ^ ilog2 n \<le> n"
proof (induction n rule: ilog2.induct)
  case (1 n)
  show ?case
  proof (cases "n < 2")
    case True
    with 1 show ?thesis by (simp add: ilog2.simps)
  next
    case False
    then have il: "ilog2 n = Suc (ilog2 (n div 2))"
      by (subst ilog2.simps) simp
    from False have "0 < n div 2" by simp
    with 1 False have "2 ^ ilog2 (n div 2) \<le> n div 2" by simp
    then show ?thesis using il by simp
  qed
qed

lemma sint_of_int_32:
  assumes "- (2 ^ 31) \<le> k" "k < 2 ^ 31"
  shows "sint (word_of_int k :: i32) = k"
  using assms by (simp add: signed_of_int signed_take_bit_int_eq_self)


lemma mul100_div4_int: "mul100_div4 x = word_of_int (100 * sint x div 4)"
proof -
  have "(4::int) dvd 100 * sint x" by simp
  then have "(100 * sint x) sdiv 4 = 100 * sint x div 4"
    by (simp add: signed_divide_int_eq_divide_int)
  then show ?thesis by (simp add: mul100_div4_def)
qed

lemma mul100_div4_25: "mul100_div4 x = 25 * x"
proof -
  have "100 * sint x div 4 = 25 * sint x" by simp
  then show ?thesis by (simp add: mul100_div4_int)
qed




lemma sint_nonneg_unat:
  fixes x :: i32
  assumes "0 \<le> sint x"
  shows "sint x = int (unat x)"
proof -
  have "sint x < 2 ^ 32" using sint_lt [of x] by simp
  with assms have "take_bit 32 (sint x) = sint x"
    by (simp add: take_bit_int_eq_self)
  then have "uint x = sint x" using uint_sint [of x] by simp
  then show ?thesis by simp
qed

lemma pow2_less_int: "k < 31 \<Longrightarrow> (2::int) ^ k < 2147483648"
proof -
  assume "k < 31"
  then have "(2::int) ^ k < 2 ^ 31" by (intro power_strict_increasing) simp_all
  then show ?thesis by simp
qed

lemma pow2_less_nat_iff: "(2::nat) ^ k < 2147483648 \<longleftrightarrow> k < 31"
proof -
  have "(2::nat) ^ k < 2 ^ 31 \<longleftrightarrow> k < 31"
    by (rule power_strict_increasing_iff) simp
  then show ?thesis by simp
qed

lemma sint_pow2:
  assumes "k < 31"
  shows "sint (2 ^ k :: i32) = 2 ^ k"
proof -
  have "(2::int) ^ k < 2 ^ 31" using pow2_less_int [OF assms] by simp
  moreover have "- (2 ^ 31) \<le> (2::int) ^ k"
    by (rule order_trans [of _ 0]) simp_all
  ultimately have "sint (word_of_int (2 ^ k) :: i32) = 2 ^ k"
    by (rule sint_of_int_32 [rotated])
  then show ?thesis by simp
qed

lemma checkPowTwo_pow2:
  assumes "checkPowTwo x"
  shows "x = 2 ^ ilog2 (nat (sint x)) \<and> ilog2 (nat (sint x)) < 31"
proof -
  from assms have pos: "1 \<le> sint x" and z: "x AND (x - 1) = 0"
    by (auto simp: checkPowTwo_def split: if_splits)
  have su: "sint x = int (unat x)"
    using pos by (intro sint_nonneg_unat) simp
  with pos have x0: "x \<noteq> 0" "0 < unat x" by (auto simp: unat_gt_0)
  have "unat (x AND (x - 1)) = unat x AND (unat x - 1)"
    using x0 by (simp add: unsigned_and_eq unat_minus_one)
  with z have "unat x AND (unat x - 1) = 0" by simp
  with x0 have p: "unat x = 2 ^ ilog2 (unat x)" by (intro and_pred_nat)
  have "int (unat x) < 2147483648" using sint_lt [of x] su by simp
  then have "unat x < 2147483648" by linarith
  with p have "(2::nat) ^ ilog2 (unat x) < 2147483648" by simp
  then have "ilog2 (unat x) < 31" by (simp only: pow2_less_nat_iff)
  moreover have "x = 2 ^ ilog2 (unat x)"
  proof -
    have "x = word_of_nat (unat x)" by simp
    also have "\<dots> = word_of_nat (2 ^ ilog2 (unat x))" using p by simp
    finally show ?thesis by simp
  qed
  ultimately show ?thesis using su by simp
qed

lemma log2_pow2:
  assumes "k < 31"
  shows "log2 (2 ^ k) = Some k"
proof -
  have s: "sint (2 ^ k :: i32) = 2 ^ k" by (rule sint_pow2 [OF assms])
  have "\<not> (2::int) ^ k < 1" by (simp add: not_less)
  then have "log2 (2 ^ k) = Some (ilog2 (nat (2 ^ k)))"
    unfolding log2_def s by simp
  also have "nat ((2::int) ^ k) = 2 ^ k" by (simp add: nat_power_eq)
  finally show ?thesis by (simp only: ilog2_pow2)
qed

lemma sint_eq_uint_small:
  fixes y :: i32
  assumes "uint y < 2147483648"
  shows "sint y = uint y"
proof -
  have "- 2147483648 \<le> uint y" using uint_nonnegative [of y] by linarith
  with assms have "signed_take_bit 31 (uint y) = uint y"
    by (intro signed_take_bit_int_eq_self) simp_all
  then show ?thesis by (simp add: sint_uint)
qed

lemma sint_take_bit_bounds:
  fixes x :: i32
  assumes "m < 31"
  shows "0 \<le> sint (x AND mask m) \<and> sint (x AND mask m) < 2 ^ m"
proof -
  let ?y = "x AND mask m"
  have u: "uint ?y < 2 ^ m"
    by (rule and_mask_lt_2p)
  have "(2::int) ^ m < 2147483648" by (rule pow2_less_int [OF assms])
  with u have "uint ?y < 2147483648" by linarith
  then have "sint ?y = uint ?y" by (rule sint_eq_uint_small)
  with u show ?thesis by simp
qed

lemma sint_signed_drop_bit_nonneg:
  fixes a :: i32
  shows "0 \<le> sint (signed_drop_bit n a) \<longleftrightarrow> 0 \<le> sint a"
  by (simp add: sint_signed_drop_bit_eq drop_bit_eq_div pos_imp_zdiv_nonneg_iff)

lemma sint_nonneg_bit:
  fixes a :: i32
  shows "0 \<le> sint a \<longleftrightarrow> \<not> bit a 31"
  using bit_last_iff [of a] by auto

lemma signed_drop_bit_eq_drop_bit_iff:
  fixes a :: i32
  assumes "0 < n"
  shows "signed_drop_bit n a = drop_bit n a \<longleftrightarrow> 0 \<le> sint a"
proof
  assume e: "signed_drop_bit n a = drop_bit n a"
  have "bit (signed_drop_bit n a) 31 = bit a 31"
    by (cases n) (simp_all add: bit_signed_drop_bit_iff)
  moreover have "\<not> bit (drop_bit n a) 31"
    using assms by (auto simp add: bit_drop_bit_eq dest: bit_imp_le_length)
  ultimately show "0 \<le> sint a" using e by (simp add: sint_nonneg_bit)
next
  assume "0 \<le> sint a"
  then have nb: "\<not> bit a 31" by (simp add: sint_nonneg_bit)
  show "signed_drop_bit n a = drop_bit n a"
  proof (rule bit_word_eqI)
    fix j assume "j < LENGTH(32)"
    show "bit (signed_drop_bit n a) j = bit (drop_bit n a) j"
      using nb by (auto simp add: bit_signed_drop_bit_iff bit_drop_bit_eq dest: bit_imp_le_length)
  qed
qed

lemma index_unsigned_shift:
  fixes a :: i32
  assumes "k + m \<le> 32"
  shows "signed_drop_bit k a AND mask m = drop_bit k a AND mask m"
proof (rule bit_word_eqI)
  fix j assume "j < LENGTH(32)"
  show "bit (signed_drop_bit k a AND mask m) j = bit (drop_bit k a AND mask m) j"
    using assms by (auto simp add: bit_and_iff bit_mask_iff bit_signed_drop_bit_iff bit_drop_bit_eq)
qed

lemma geometry_logs:
  assumes "checkPowTwo (numBytes c)" "checkPowTwo (numSets c)"
  shows "log2 (numBytes c) = Some (offsetBits c)" "log2 (numSets c) = Some (indexBits c)"
    "offsetBits c < 31" "indexBits c < 31"
    "numBytes c = 2 ^ offsetBits c" "numSets c = 2 ^ indexBits c"
  using assms checkPowTwo_pow2 [of "numBytes c"] checkPowTwo_pow2 [of "numSets c"]
  by (simp_all add: offsetBits_def indexBits_def log2_def checkPowTwo_def split: if_splits)

lemma calculateIndex_eq:
  assumes "checkPowTwo (numBytes c)" "checkPowTwo (numSets c)"
  shows "calculateIndex a c = Some (signed_drop_bit (offsetBits c) a AND mask (indexBits c))"
  using geometry_logs(1-4) [OF assms]
  by (simp add: calculateIndex_def shr_def shl_def mask_eq_exp_minus_1)

lemma calculateTag_eq:
  assumes "checkPowTwo (numBytes c)" "checkPowTwo (numSets c)"
  shows "calculateTag a c =
    (if offsetBits c + indexBits c < 32
     then Some (signed_drop_bit (offsetBits c + indexBits c) a) else None)"
  using geometry_logs(1-4) [OF assms]
  by (simp add: calculateTag_def shr_def)

lemma offsetBits_ge_2:
  assumes "checkPowTwo (numBytes c)" "4 \<le> sint (numBytes c)"
  shows "2 \<le> offsetBits c"
proof (rule ccontr)
  assume "\<not> 2 \<le> offsetBits c"
  then have "offsetBits c = 0 \<or> offsetBits c = 1" by arith
  moreover have "numBytes c = 2 ^ offsetBits c"
    using assms(1) checkPowTwo_pow2 [of "numBytes c"] by (simp add: offsetBits_def)
  ultimately have "numBytes c = 1 \<or> numBytes c = 2" by auto
  with assms(2) show False by auto
qed

section \<open>The address decoder\<close>

text \<open>
  C1 (as amended). For every address and every geometry that \<open>validateArguments\<close> accepts
  (sizes that are positive powers of two, a block of at least 4 bytes):
  the index is \<open>(address >> offsetBits) & ((1 << indexBits) - 1)\<close> and lies in
  \<open>[0, numSets)\<close>; it is the same with the unsigned shift as long as
  \<open>offsetBits + indexBits \<le> 32\<close>. The tag is the arithmetic shift of the \<open>int\<close> address by
  \<open>offsetBits + indexBits\<close>, defined when that count is below 32. It is non-negative, and
  equal to the unsigned shift, exactly when the address read as an \<open>int\<close> is non-negative,
  that is for addresses below \<open>2^31\<close>.
\<close>

theorem address_decoding:
  assumes "checkPowTwo (numSets c)" and "checkPowTwo (numBytes c)"
    and "4 \<le> sint (numBytes c)"
  shows "calculateIndex a c =
           Some (signed_drop_bit (offsetBits c) a AND (push_bit (indexBits c) 1 - 1))
       \<and> (\<forall>i. calculateIndex a c = Some i \<longrightarrow> 0 \<le> sint i \<and> sint i < sint (numSets c))
       \<and> (offsetBits c + indexBits c \<le> 32 \<longrightarrow>
            calculateIndex a c =
              Some (drop_bit (offsetBits c) a AND (push_bit (indexBits c) 1 - 1)))
       \<and> calculateTag a c =
           (if offsetBits c + indexBits c < 32
            then Some (signed_drop_bit (offsetBits c + indexBits c) a) else None)
       \<and> (\<forall>t. calculateTag a c = Some t \<longrightarrow>
            (0 \<le> sint t \<longleftrightarrow> 0 \<le> sint a)
          \<and> (t = drop_bit (offsetBits c + indexBits c) a \<longleftrightarrow> 0 \<le> sint a))"
proof -
  note g = geometry_logs [OF assms(2) assms(1)]
  note ix = calculateIndex_eq [OF assms(2) assms(1), of a]
  note tg = calculateTag_eq [OF assms(2) assms(1), of a]
  have s: "sint (numSets c) = 2 ^ indexBits c"
    using g(6) sint_pow2 [OF g(4)] by simp
  have pos: "0 < offsetBits c + indexBits c"
    using offsetBits_ge_2 [OF assms(2,3)] by simp
  have 1: "calculateIndex a c =
      Some (signed_drop_bit (offsetBits c) a AND (push_bit (indexBits c) 1 - 1))"
    using ix by (simp add: mask_eq_exp_minus_1)
  have 2: "\<forall>i. calculateIndex a c = Some i \<longrightarrow> 0 \<le> sint i \<and> sint i < sint (numSets c)"
    using ix sint_take_bit_bounds [OF g(4)] s by simp
  have 3: "offsetBits c + indexBits c \<le> 32 \<longrightarrow>
      calculateIndex a c = Some (drop_bit (offsetBits c) a AND (push_bit (indexBits c) 1 - 1))"
    using ix index_unsigned_shift [of "offsetBits c" "indexBits c" a]
    by (simp add: mask_eq_exp_minus_1)
  have 5: "\<forall>t. calculateTag a c = Some t \<longrightarrow>
            (0 \<le> sint t \<longleftrightarrow> 0 \<le> sint a)
          \<and> (t = drop_bit (offsetBits c + indexBits c) a \<longleftrightarrow> 0 \<le> sint a)"
    using tg signed_drop_bit_eq_drop_bit_iff [OF pos, of a]
      sint_signed_drop_bit_nonneg [of "offsetBits c + indexBits c" a]
    by (auto split: if_splits)
  from 1 2 3 tg 5 show ?thesis by (intro conjI)
qed


theorem address_decoding_witness:
  "checkPowTwo 16 \<and> 4 \<le> sint (16 :: i32)
   \<and> calculateIndex 0x1234
        (cacheSetUp default_Cache 16 1 16 ''write-allocate'' ''write-back'' ''lru'') = Some 3
   \<and> calculateTag 0x1234
        (cacheSetUp default_Cache 16 1 16 ''write-allocate'' ''write-back'' ''lru'') = Some 0x12"
proof -
  let ?c = "cacheSetUp default_Cache 16 1 16 ''write-allocate'' ''write-back'' ''lru''"
  have p: "checkPowTwo 16" by (simp add: checkPowTwo_def)
  have h1: "checkPowTwo (numSets ?c)" and h2: "checkPowTwo (numBytes ?c)"
    using p by (simp_all add: cacheSetUp_def)
  have h3: "4 \<le> sint (numBytes ?c)" by (simp add: cacheSetUp_def)
  have k: "offsetBits ?c = 4" "indexBits ?c = 4"
    by (simp_all add: offsetBits_def indexBits_def cacheSetUp_def ilog2.simps)
  note d = address_decoding [OF h1 h2 h3, of "0x1234", unfolded k]
  from d [THEN conjunct1] have i: "calculateIndex 0x1234 ?c = Some 3" by simp
  from d [THEN conjunct2, THEN conjunct2, THEN conjunct2, THEN conjunct1]
  have t: "calculateTag 0x1234 ?c = Some 0x12" by simp
  from p i t show ?thesis by simp
qed

text \<open>
  With one set of 4-byte blocks the address \<open>0x80000000\<close> has the tag \<open>0xE0000000\<close>, a
  negative \<open>int\<close>, where the unsigned shift by 2 gives \<open>0x20000000\<close>. With 4 sets of
  \<open>2^30\<close>-byte blocks the shift count is 32.
\<close>

theorem address_decoding_counterexample:
  "validateArguments 1 1 4 ''write-allocate'' ''write-back'' ''lru'' = 0
   \<and> calculateTag 0x80000000
        (cacheSetUp default_Cache 1 1 4 ''write-allocate'' ''write-back'' ''lru'')
     = Some 0xE0000000
   \<and> sint (0xE0000000 :: i32) = - 536870912
   \<and> drop_bit 2 (0x80000000 :: i32) = 0x20000000
   \<and> validateArguments 4 1 1073741824 ''write-allocate'' ''write-back'' ''lru'' = 0
   \<and> calculateTag 0x80000000
        (cacheSetUp default_Cache 4 1 1073741824 ''write-allocate'' ''write-back'' ''lru'')
     = None"
  by (simp add: model_defs ilog2.simps)

section \<open>Lookup, replacement and the handlers in closed form\<close>

lemma first_way_None_iff: "first_way P s w = None \<longleftrightarrow> (\<forall>x \<in> set s. \<not> P x)"
  by (induction s arbitrary: w) auto

lemma first_way_Some:
  "first_way P s w0 = Some w \<Longrightarrow>
     w0 \<le> w \<and> w - w0 < length s \<and> P (s ! (w - w0)) \<and> (\<forall>j < w - w0. \<not> P (s ! j))"
proof (induction s arbitrary: w0)
  case Nil
  then show ?case by simp
next
  case (Cons x s)
  show ?case
  proof (cases "P x")
    case True
    with Cons.prems show ?thesis by simp
  next
    case False
    with Cons.prems have r: "first_way P s (Suc w0) = Some w" by simp
    from Cons.IH [OF r] have a: "Suc w0 \<le> w" "w - Suc w0 < length s"
      "P (s ! (w - Suc w0))" "\<forall>j < w - Suc w0. \<not> P (s ! j)" by auto
    from a(1) have e: "w - w0 = Suc (w - Suc w0)" by arith
    have "\<forall>j < w - w0. \<not> P ((x # s) ! j)"
    proof (intro allI impI)
      fix j assume "j < w - w0"
      then show "\<not> P ((x # s) ! j)" using False a(4) e by (cases j) auto
    qed
    then show ?thesis using a e by simp
  qed
qed

lemma first_way_0:
  "first_way P s 0 = Some w \<Longrightarrow> w < length s \<and> P (s ! w) \<and> (\<forall>j < w. \<not> P (s ! j))"
  using first_way_Some [of P s 0 w] by simp

lemma min_scan_inv:
  fixes ts :: "Slot \<Rightarrow> u32"
  defines "m \<equiv> \<lambda>s n. foldl (\<lambda>temp w. if ts (s ! w) < ts (s ! temp) then w else temp) 0 [0..<n]"
  shows "m s n \<le> n - 1 \<and> (\<forall>j < n. ts (s ! m s n) \<le> ts (s ! j))
         \<and> (\<forall>j < m s n. ts (s ! m s n) < ts (s ! j))"
proof (induction n)
  case 0
  show ?case by (simp add: m_def)
next
  case (Suc n)
  let ?t = "m s n"
  have st: "m s (Suc n) = (if ts (s ! n) < ts (s ! ?t) then n else ?t)"
    by (simp add: m_def)
  show ?case
  proof (cases "ts (s ! n) < ts (s ! ?t)")
    case True
    then have e: "m s (Suc n) = n" using st by simp
    have "\<forall>j < Suc n. ts (s ! n) \<le> ts (s ! j)"
      using Suc True by (auto simp: less_Suc_eq)
    moreover have "\<forall>j < n. ts (s ! n) < ts (s ! j)"
      using Suc True by fastforce
    ultimately show ?thesis unfolding e by simp
  next
    case False
    then have e: "m s (Suc n) = ?t" using st by simp
    have "\<forall>j < Suc n. ts (s ! ?t) \<le> ts (s ! j)"
      using Suc False by (auto simp: less_Suc_eq)
    then show ?thesis unfolding e using Suc by auto
  qed
qed

lemma min_way_props:
  assumes "s \<noteq> []"
  shows "min_way ts s < length s"
    and "\<forall>j < length s. ts (s ! min_way ts s) \<le> ts (s ! j)"
    and "\<forall>j < min_way ts s. ts (s ! min_way ts s) < ts (s ! j)"
proof -
  note i = min_scan_inv [of ts s "length s", folded min_way_def]
  from assms have "0 < length s" by simp
  moreover from i have "min_way ts s \<le> length s - 1" by simp
  ultimately show "min_way ts s < length s" by arith
  from i show "\<forall>j < length s. ts (s ! min_way ts s) \<le> ts (s ! j)" by simp
  from i show "\<forall>j < min_way ts s. ts (s ! min_way ts s) < ts (s ! j)" by simp
qed


lemma set_at_SomeD:
  "set_at c index = Some s \<Longrightarrow>
     0 \<le> sint index \<and> nat (sint index) < length (sets c) \<and> sets c ! nat (sint index) = s"
  by (auto simp: set_at_def split: if_splits)

lemma write_slot_Some:
  assumes "set_at c index = Some s" "w < length s"
  shows "write_slot c index w f =
     Some (c\<lparr>sets := (sets c)[nat (sint index) := s[w := f (s ! w)]]\<rparr>)"
  using assms by (simp add: write_slot_def)

lemma findLRUBlock_eq:
  assumes "set_at c index = Some s" "s \<noteq> []"
  shows "findLRUBlock index c =
     Some (min_way access_ts s,
           if dirty (s ! min_way access_ts s) \<and> handleWrite c = ''write-back''
           then flush c index (min_way access_ts s) else c)"
  using assms set_at_SomeD [OF assms(1)] min_way_props(1) [OF assms(2), of access_ts]
  by (simp add: findLRUBlock_def write_slot_Some flush_def Let_def)

lemma findFIFOBlock_eq:
  assumes "set_at c index = Some s" "s \<noteq> []"
  shows "findFIFOBlock index c =
     Some (min_way load_ts s,
           if dirty (s ! min_way load_ts s) \<and> handleWrite c = ''write-back''
           then flush c index (min_way load_ts s) else c)"
  using assms set_at_SomeD [OF assms(1)] min_way_props(1) [OF assms(2), of load_ts]
  by (simp add: findFIFOBlock_def write_slot_Some flush_def Let_def)

lemma findReplacementBlock_eq:
  assumes "set_at c index = Some s" "s \<noteq> []"
  shows "findReplacementBlock index c =
     (case first_way (\<lambda>slot. valid slot = False) s 0 of
        Some w \<Rightarrow> Some (w, c)
      | None \<Rightarrow> Some (min_way (policy_ts c) s,
                       if dirty (s ! min_way (policy_ts c) s) \<and> handleWrite c = ''write-back''
                       then flush c index (min_way (policy_ts c) s) else c))"
  using assms
  by (simp add: findReplacementBlock_def findLRUBlock_eq findFIFOBlock_eq policy_ts_def
      split: option.splits)

lemma handleLoad_hit:
  assumes "set_at c index = Some s" "h < length s"
  shows "handleLoad c index t (Some h) =
     Some (c\<lparr>loadCount := loadCount c + 1, loadHits := loadHits c + 1,
             totalCycles := totalCycles c + 1,
             sets := (if handleEviction c = ''lru''
                      then (sets c)[nat (sint index) :=
                              s[h := (s ! h)\<lparr>access_ts := totalCycles c + 1\<rparr>]]
                      else sets c)\<rparr>)"
  using assms set_at_SomeD [OF assms(1)]
  by (simp add: handleLoad_def write_slot_def set_at_def Let_def)


lemma victim_less: "s \<noteq> [] \<Longrightarrow> victim c s < length s"
  by (auto simp: victim_def min_way_props(1) split: option.splits dest: first_way_0)

lemma findReplacementBlock_victim:
  assumes "set_at c index = Some s" "s \<noteq> []"
  shows "findReplacementBlock index c =
     Some (victim c s, if evicts_dirty c s then flush c index (victim c s) else c)"
proof (cases "first_way (\<lambda>slot. valid slot = False) s 0")
  case None
  then have "\<forall>slot \<in> set s. valid slot" by (simp add: first_way_None_iff)
  with None show ?thesis
    by (simp add: findReplacementBlock_eq [OF assms] victim_def evicts_dirty_def)
next
  case (Some w)
  from first_way_0 [OF Some] have "\<not> (\<forall>slot \<in> set s. valid slot)"
    by (metis nth_mem)
  with Some show ?thesis
    by (auto simp add: findReplacementBlock_eq [OF assms] victim_def evicts_dirty_def)
qed

lemma handleLoad_miss:
  assumes "set_at c index = Some s" "s \<noteq> []"
  defines "cyc \<equiv> totalCycles c + mul100_div4 (numBytes c) + flush_cost c s + 1"
  shows "handleLoad c index t None =
     Some (c\<lparr>loadCount := loadCount c + 1, loadMisses := loadMisses c + 1,
             totalCycles := cyc,
             sets := (sets c)[nat (sint index) :=
                s[victim c s := stamp c cyc ((replaced_slot c s)\<lparr>valid := True, tag := t\<rparr>)]]\<rparr>)"
proof -
  let ?c1 = "c\<lparr>loadCount := loadCount c + 1, loadMisses := loadMisses c + 1,
               totalCycles := totalCycles c + mul100_div4 (numBytes c)\<rparr>"
  have s1: "set_at ?c1 index = Some s"
    using set_at_SomeD [OF assms(1)] by (simp add: set_at_def)
  have pt: "policy_ts ?c1 = policy_ts c" by (simp add: policy_ts_def)
  have e1: "evicts_dirty ?c1 s = evicts_dirty c s" "victim ?c1 s = victim c s"
    by (simp_all add: evicts_dirty_def victim_def pt split: option.splits)
  note r = findReplacementBlock_victim [OF s1 assms(2), unfolded e1]
  have wl: "victim c s < length s" by (rule victim_less [OF assms(2)])
  note d = set_at_SomeD [OF assms(1)]
  show ?thesis
  proof (cases "evicts_dirty c s")
    case True
    with r wl d show ?thesis
      by (simp add: handleLoad_def write_slot_def set_at_def flush_def flush_cost_def cyc_def
          Let_def replaced_slot_def stamp_def)
  next
    case False
    with r wl d show ?thesis
      by (simp add: handleLoad_def write_slot_def set_at_def flush_def flush_cost_def cyc_def
          Let_def replaced_slot_def stamp_def)
  qed
qed


lemma handleStore_hit:
  assumes "set_at c index = Some s" "h < length s"
  shows "handleStore c index t (Some h) =
     Some (c\<lparr>storeCount := storeCount c + 1, storeHits := storeHits c + 1,
             sets := (sets c)[nat (sint index) :=
                s[h := (if handleWrite c = ''write-back''
                        then (s ! h)\<lparr>access_ts := totalCycles c, dirty := True\<rparr>
                        else (s ! h)\<lparr>access_ts := totalCycles c\<rparr>)]],
             totalCycles := totalCycles c + (if handleWrite c = ''write-back'' then 1 else 100)\<rparr>)"
  using assms set_at_SomeD [OF assms(1)]
  by (simp add: handleStore_def write_slot_def set_at_def Let_def)

lemma handleStore_miss_no_allocate:
  assumes "handleMiss c = ''no-write-allocate''"
  shows "handleStore c index t None =
     Some (c\<lparr>storeCount := storeCount c + 1, storeMisses := storeMisses c + 1,
             totalCycles := totalCycles c + 100\<rparr>)"
  using assms by (simp add: handleStore_def Let_def)

lemma handleStore_miss_allocate:
  assumes "set_at c index = Some s" "s \<noteq> []" "handleMiss c \<noteq> ''no-write-allocate''"
  defines "cyc \<equiv> totalCycles c + 100 * div4 (numBytes c) + flush_cost c s + 1"
  shows "handleStore c index t None =
     Some (c\<lparr>storeCount := storeCount c + 1, storeMisses := storeMisses c + 1,
             totalCycles := cyc,
             sets := (sets c)[nat (sint index) :=
                s[victim c s :=
                    mark_dirty c (stamp c cyc ((replaced_slot c s)\<lparr>valid := True, tag := t\<rparr>))]]\<rparr>)"
proof -
  let ?c1 = "c\<lparr>storeCount := storeCount c + 1, storeMisses := storeMisses c + 1,
               totalCycles := totalCycles c + 100 * div4 (numBytes c)\<rparr>"
  have s1: "set_at ?c1 index = Some s"
    using set_at_SomeD [OF assms(1)] by (simp add: set_at_def)
  have pt: "policy_ts ?c1 = policy_ts c" by (simp add: policy_ts_def)
  have e1: "evicts_dirty ?c1 s = evicts_dirty c s" "victim ?c1 s = victim c s"
    by (simp_all add: evicts_dirty_def victim_def pt split: option.splits)
  note r = findReplacementBlock_victim [OF s1 assms(2), unfolded e1]
  have wl: "victim c s < length s" by (rule victim_less [OF assms(2)])
  note d = set_at_SomeD [OF assms(1)]
  show ?thesis
  proof (cases "evicts_dirty c s")
    case True
    with r wl d assms(3) show ?thesis
      by (simp add: handleStore_def write_slot_def set_at_def flush_def flush_cost_def cyc_def
          Let_def replaced_slot_def stamp_def mark_dirty_def)
  next
    case False
    with r wl d assms(3) show ?thesis
      by (simp add: handleStore_def write_slot_def set_at_def flush_def flush_cost_def cyc_def
          Let_def replaced_slot_def stamp_def mark_dirty_def)
  qed
qed

lemma clean_invD:
  assumes "clean_inv c" "set_at c index = Some s" "w < length s" "dirty (s ! w)"
  shows "valid (s ! w)" "handleWrite c = ''write-back''"
proof -
  from set_at_SomeD [OF assms(2)] have "s \<in> set (sets c)" by (metis nth_mem)
  moreover have "s ! w \<in> set s" using assms(3) by simp
  ultimately show "valid (s ! w)" "handleWrite c = ''write-back''"
    using assms(1,4) by (auto simp: clean_inv_def)
qed

lemma replaced_slot_clean:
  assumes "clean_inv c" "set_at c index = Some s" "s \<noteq> []"
  shows "\<not> dirty (replaced_slot c s)"
proof (cases "evicts_dirty c s")
  case True
  then show ?thesis by (simp add: replaced_slot_def)
next
  case False
  note wl = victim_less [OF assms(3), of c]
  show ?thesis
  proof
    assume "dirty (replaced_slot c s)"
    with False have dv: "dirty (s ! victim c s)" by (simp add: replaced_slot_def)
    note cd = clean_invD [OF assms(1,2) wl dv]
    show False
    proof (cases "first_way (\<lambda>slot. valid slot = False) s 0")
      case None
      then have "\<forall>slot \<in> set s. valid slot" by (simp add: first_way_None_iff)
      moreover from None have "victim c s = min_way (policy_ts c) s" by (simp add: victim_def)
      ultimately show False using False dv cd by (simp add: evicts_dirty_def)
    next
      case (Some w)
      then have "victim c s = w" by (simp add: victim_def)
      with first_way_0 [OF Some] cd show False by simp
    qed
  qed
qed

section \<open>Invariants of the reachable states\<close>

lemma valid_configD:
  assumes "valid_config c"
  shows "checkPowTwo (numSets c)" "checkPowTwo (numBlocks c)" "checkPowTwo (numBytes c)"
    "4 \<le> sint (numBytes c)" "1 \<le> sint (numBlocks c)" "1 \<le> sint (numSets c)"
    "handleWrite c = ''write-back'' \<or> handleWrite c = ''write-through''"
    "handleWrite c = ''write-back'' \<longrightarrow> handleMiss c = ''write-allocate''"
    "handleEviction c = ''lru'' \<or> handleEviction c = ''fifo''"
    "handleMiss c = ''write-allocate'' \<or> handleMiss c = ''no-write-allocate''"
  using assms
  by (auto simp: valid_config_def validateArguments_def split: if_splits)

lemma init_inv:
  assumes "validateArguments nSets nBlocks nBytes hMiss hWrite hEviction = 0"
  shows "cache_inv (cacheSetUp default_Cache nSets nBlocks nBytes hMiss hWrite hEviction)"
proof -
  let ?c = "cacheSetUp default_Cache nSets nBlocks nBytes hMiss hWrite hEviction"
  have "valid_config ?c" using assms by (simp add: valid_config_def cacheSetUp_def)
  moreover have "shape_ok ?c" by (simp add: shape_ok_def cacheSetUp_def default_Cache_def)
  moreover have "clean_inv ?c"
    by (auto simp: clean_inv_def cacheSetUp_def default_Cache_def init_slot_def)
  moreover have "\<forall>s \<in> set (sets ?c). unique_tags s"
    by (auto simp: unique_tags_def cacheSetUp_def default_Cache_def init_slot_def)
  ultimately show ?thesis by (simp add: cache_inv_def)
qed

lemma unique_tags_update:
  assumes "unique_tags s" "w < length s"
    and "valid slot \<longrightarrow> (\<forall>j < length s. j \<noteq> w \<and> valid (s ! j) \<longrightarrow> tag (s ! j) \<noteq> tag slot)"
  shows "unique_tags (s[w := slot])"
  unfolding unique_tags_def
proof (intro ballI impI)
  fix i j
  assume i: "i \<in> {..<length (s[w := slot])}" and j: "j \<in> {..<length (s[w := slot])}"
    and h: "i \<noteq> j \<and> valid (s[w := slot] ! i) \<and> valid (s[w := slot] ! j)"
  from i j have il: "i < length s" and jl: "j < length s" by simp_all
  show "tag (s[w := slot] ! i) \<noteq> tag (s[w := slot] ! j)"
  proof (cases "i = w")
    case True
    with h have "j \<noteq> w" by auto
    with True h il jl assms(3) show ?thesis by (auto simp: nth_list_update)
  next
    case False
    note iw = this
    show ?thesis
    proof (cases "j = w")
      case True
      with iw h il jl assms(3) show ?thesis by (auto simp: nth_list_update)
    next
      case False
      with iw h il jl assms(1) show ?thesis by (auto simp: nth_list_update unique_tags_def)
    qed
  qed
qed

lemma inv_update:
  assumes inv: "cache_inv c" and sa: "set_at c index = Some s" and wl: "w < length s"
    and cfg: "numSets c' = numSets c" "numBlocks c' = numBlocks c" "numBytes c' = numBytes c"
      "handleMiss c' = handleMiss c" "handleWrite c' = handleWrite c"
      "handleEviction c' = handleEviction c"
    and sets: "sets c' = (sets c)[nat (sint index) := s[w := slot]]"
    and dv: "dirty slot \<longrightarrow> valid slot \<and> handleWrite c = ''write-back''"
    and ut: "valid slot \<longrightarrow>
               (\<forall>j < length s. j \<noteq> w \<and> valid (s ! j) \<longrightarrow> tag (s ! j) \<noteq> tag slot)"
  shows "cache_inv c'"
proof -
  note d = set_at_SomeD [OF sa]
  from d have sin: "s \<in> set (sets c)" by (metis nth_mem)
  from inv have vc: "valid_config c" and sh: "shape_ok c" and cl: "clean_inv c"
    and un: "\<forall>x \<in> set (sets c). unique_tags x"
    by (simp_all add: cache_inv_def)
  have mem: "x \<in> set (sets c) \<or> x = s[w := slot]" if "x \<in> set (sets c')" for x
    using that set_update_subset_insert [of "sets c" "nat (sint index)" "s[w := slot]"]
    unfolding sets by auto
  have slots: "y \<in> set s \<or> y = slot" if "y \<in> set (s[w := slot])" for y
    using that set_update_subset_insert [of s w slot] by auto
  have "valid_config c'" using vc cfg by (simp add: valid_config_def)
  moreover have "shape_ok c'"
  proof -
    have "length x = nat (sint (numBlocks c'))" if "x \<in> set (sets c')" for x
      using mem [OF that] sh sin cfg by (auto simp: shape_ok_def)
    moreover have "length (sets c') = nat (sint (numSets c'))"
      using sh cfg by (simp add: shape_ok_def sets)
    ultimately show ?thesis by (simp add: shape_ok_def)
  qed
  moreover have "clean_inv c'"
    unfolding clean_inv_def
  proof (intro ballI impI)
    fix x y assume x: "x \<in> set (sets c')" and y: "y \<in> set x" and dy: "dirty y"
    from mem [OF x] show "valid y \<and> handleWrite c' = ''write-back''"
    proof
      assume "x \<in> set (sets c)"
      with cl y dy cfg show ?thesis by (auto simp: clean_inv_def)
    next
      assume "x = s[w := slot]"
      with y slots have "y \<in> set s \<or> y = slot" by blast
      with cl sin dy dv cfg show ?thesis by (auto simp: clean_inv_def)
    qed
  qed
  moreover have "\<forall>x \<in> set (sets c'). unique_tags x"
  proof
    fix x assume "x \<in> set (sets c')"
    from mem [OF this] show "unique_tags x"
    proof
      assume "x \<in> set (sets c)" with un show ?thesis by blast
    next
      assume "x = s[w := slot]"
      moreover from un sin have "unique_tags s" by blast
      ultimately show ?thesis using unique_tags_update [OF _ wl ut] by simp
    qed
  qed
  ultimately show ?thesis by (simp add: cache_inv_def)
qed

lemma inv_stats_only:
  assumes inv: "cache_inv c"
    and cfg: "numSets c' = numSets c" "numBlocks c' = numBlocks c" "numBytes c' = numBytes c"
      "handleMiss c' = handleMiss c" "handleWrite c' = handleWrite c"
      "handleEviction c' = handleEviction c" "sets c' = sets c"
  shows "cache_inv c'"
  using assms
  by (simp add: cache_inv_def valid_config_def shape_ok_def clean_inv_def)

lemma findBlock_SomeD:
  assumes "findBlock t index c = Some hit"
  obtains s where "set_at c index = Some s"
    and "hit = first_way (\<lambda>slot. valid slot \<and> tag slot = t) s 0"
  using assms by (cases "set_at c index") (auto simp: findBlock_def)

lemma cacheSimulator_SomeD:
  assumes "cacheSimulator c loadStore a = Some c'"
  obtains index t hit where "calculateIndex a c = Some index" "calculateTag a c = Some t"
    "findBlock t index c = Some hit"
    "(if loadStore = CHR ''l'' then handleLoad c index t hit
      else handleStore c index t hit) = Some c'"
  using assms
  by (cases "calculateIndex a c"; cases "calculateTag a c")
     (auto simp: cacheSimulator_def split: Option.bind_splits)

lemma inv_set_nonempty:
  assumes "cache_inv c" "set_at c index = Some s"
  shows "s \<noteq> []"
proof -
  from assms(1) have vc: "valid_config c" and sh: "shape_ok c" by (simp_all add: cache_inv_def)
  from set_at_SomeD [OF assms(2)] have "s \<in> set (sets c)" by (metis nth_mem)
  with sh have "length s = nat (sint (numBlocks c))" by (simp add: shape_ok_def)
  with valid_configD(5) [OF vc] show ?thesis by auto
qed

lemma inv_set_facts:
  assumes "cache_inv c" "set_at c index = Some s"
  shows "unique_tags s" "clean_inv c"
proof -
  from set_at_SomeD [OF assms(2)] have "s \<in> set (sets c)" by (metis nth_mem)
  with assms(1) show "unique_tags s" "clean_inv c" by (simp_all add: cache_inv_def)
qed

lemma unique_tagsD:
  assumes "unique_tags s" "i < length s" "j < length s" "i \<noteq> j" "valid (s ! i)" "valid (s ! j)"
  shows "tag (s ! i) \<noteq> tag (s ! j)"
  using assms by (auto simp: unique_tags_def)

lemma miss_tag_absent:
  assumes "first_way (\<lambda>slot. valid slot \<and> tag slot = t) s 0 = None"
  shows "\<forall>j < length s. j \<noteq> w \<and> valid (s ! j) \<longrightarrow> tag (s ! j) \<noteq> t"
  using assms by (auto simp: first_way_None_iff)

lemma handleLoad_inv:
  assumes inv: "cache_inv c" and sa: "set_at c index = Some s"
    and hit: "hit = first_way (\<lambda>slot. valid slot \<and> tag slot = t) s 0"
    and r: "handleLoad c index t hit = Some c'"
  shows "cache_inv c'"
proof (cases hit)
  case None
  note ne = inv_set_nonempty [OF inv sa]
  note wl = victim_less [OF ne, of c]
  note cl = inv_set_facts(2) [OF inv sa]
  define cyc where "cyc = totalCycles c + mul100_div4 (numBytes c) + flush_cost c s + 1"
  define slot where "slot = stamp c cyc ((replaced_slot c s)\<lparr>valid := True, tag := t\<rparr>)"
  from r None have c': "c' = c\<lparr>loadCount := loadCount c + 1, loadMisses := loadMisses c + 1,
      totalCycles := cyc, sets := (sets c)[nat (sint index) := s[victim c s := slot]]\<rparr>"
    by (simp add: handleLoad_miss [OF sa ne] cyc_def slot_def)
  have dv: "dirty slot \<longrightarrow> valid slot \<and> handleWrite c = ''write-back''"
    using replaced_slot_clean [OF cl sa ne] by (simp add: slot_def stamp_def)
  have tg: "tag slot = t" by (simp add: slot_def stamp_def)
  have ut: "valid slot \<longrightarrow>
      (\<forall>j < length s. j \<noteq> victim c s \<and> valid (s ! j) \<longrightarrow> tag (s ! j) \<noteq> tag slot)"
    using miss_tag_absent [of t s "victim c s"] hit None by (simp add: tg)
  show ?thesis
    by (rule inv_update [OF inv sa wl _ _ _ _ _ _ _ dv ut]) (simp_all add: c')
next
  case (Some h)
  with hit have fw: "first_way (\<lambda>slot. valid slot \<and> tag slot = t) s 0 = Some h" by simp
  note f = first_way_0 [OF fw]
  from f have hl: "h < length s" by simp
  note c' = r [unfolded Some handleLoad_hit [OF sa hl], simplified]
  show ?thesis
  proof (cases "handleEviction c = ''lru''")
    case True
    let ?slot = "(s ! h)\<lparr>access_ts := totalCycles c + 1\<rparr>"
    have dv: "dirty ?slot \<longrightarrow> valid ?slot \<and> handleWrite c = ''write-back''"
      using clean_invD [OF inv_set_facts(2) [OF inv sa] sa hl] by simp
    have ut: "valid ?slot \<longrightarrow>
        (\<forall>j < length s. j \<noteq> h \<and> valid (s ! j) \<longrightarrow> tag (s ! j) \<noteq> tag ?slot)"
      using unique_tagsD [OF inv_set_facts(1) [OF inv sa] _ hl] by auto
    show ?thesis
      by (rule inv_update [OF inv sa hl _ _ _ _ _ _ _ dv ut])
         (simp_all add: c' [symmetric] True)
  next
    case False
    show ?thesis
      by (rule inv_stats_only [OF inv]) (simp_all add: c' [symmetric] False)
  qed
qed

lemma handleStore_inv:
  assumes inv: "cache_inv c" and sa: "set_at c index = Some s"
    and hit: "hit = first_way (\<lambda>slot. valid slot \<and> tag slot = t) s 0"
    and r: "handleStore c index t hit = Some c'"
  shows "cache_inv c'"
proof (cases hit)
  case None
  show ?thesis
  proof (cases "handleMiss c = ''no-write-allocate''")
    case True
    note c' = r [unfolded None handleStore_miss_no_allocate [OF True], simplified]
    show ?thesis by (rule inv_stats_only [OF inv]) (simp_all add: c' [symmetric])
  next
    case False
    note ne = inv_set_nonempty [OF inv sa]
    note wl = victim_less [OF ne, of c]
    note cl = inv_set_facts(2) [OF inv sa]
    define cyc where "cyc = totalCycles c + 100 * div4 (numBytes c) + flush_cost c s + 1"
    define slot where
      "slot = mark_dirty c (stamp c cyc ((replaced_slot c s)\<lparr>valid := True, tag := t\<rparr>))"
    from r None have c': "c' = c\<lparr>storeCount := storeCount c + 1,
        storeMisses := storeMisses c + 1, totalCycles := cyc,
        sets := (sets c)[nat (sint index) := s[victim c s := slot]]\<rparr>"
      by (simp add: handleStore_miss_allocate [OF sa ne False] cyc_def slot_def)
    have dv: "dirty slot \<longrightarrow> valid slot \<and> handleWrite c = ''write-back''"
      using replaced_slot_clean [OF cl sa ne] by (simp add: slot_def stamp_def mark_dirty_def)
    have tg: "tag slot = t" by (simp add: slot_def stamp_def mark_dirty_def)
    have ut: "valid slot \<longrightarrow>
        (\<forall>j < length s. j \<noteq> victim c s \<and> valid (s ! j) \<longrightarrow> tag (s ! j) \<noteq> tag slot)"
      using miss_tag_absent [of t s "victim c s"] hit None by (simp add: tg)
    show ?thesis
      by (rule inv_update [OF inv sa wl _ _ _ _ _ _ _ dv ut]) (simp_all add: c')
  qed
next
  case (Some h)
  with hit have fw: "first_way (\<lambda>slot. valid slot \<and> tag slot = t) s 0 = Some h" by simp
  note f = first_way_0 [OF fw]
  from f have hl: "h < length s" and hv: "valid (s ! h)" by simp_all
  note c' = r [unfolded Some handleStore_hit [OF sa hl], simplified]
  let ?slot = "if handleWrite c = ''write-back''
               then (s ! h)\<lparr>access_ts := totalCycles c, dirty := True\<rparr>
               else (s ! h)\<lparr>access_ts := totalCycles c\<rparr>"
  have dv: "dirty ?slot \<longrightarrow> valid ?slot \<and> handleWrite c = ''write-back''"
    using clean_invD [OF inv_set_facts(2) [OF inv sa] sa hl] hv by simp
  have ut: "valid ?slot \<longrightarrow>
      (\<forall>j < length s. j \<noteq> h \<and> valid (s ! j) \<longrightarrow> tag (s ! j) \<noteq> tag ?slot)"
    using unique_tagsD [OF inv_set_facts(1) [OF inv sa] _ hl] by auto
  show ?thesis
    by (rule inv_update [OF inv sa hl _ _ _ _ _ _ _ dv ut]) (simp_all add: c' [symmetric])
qed

lemma cacheSimulator_inv:
  assumes "cache_inv c" "cacheSimulator c loadStore a = Some c'"
  shows "cache_inv c'"
proof -
  from assms(2) obtain index t hit where
    fb: "findBlock t index c = Some hit"
    and h: "(if loadStore = CHR ''l'' then handleLoad c index t hit
             else handleStore c index t hit) = Some c'"
    by (rule cacheSimulator_SomeD)
  from fb obtain s where sa: "set_at c index = Some s"
    and hit: "hit = first_way (\<lambda>slot. valid slot \<and> tag slot = t) s 0"
    by (rule findBlock_SomeD)
  show ?thesis
  proof (cases "loadStore = CHR ''l''")
    case True
    with h have "handleLoad c index t hit = Some c'" by simp
    then show ?thesis by (rule handleLoad_inv [OF assms(1) sa hit])
  next
    case False
    with h have "handleStore c index t hit = Some c'" by simp
    then show ?thesis by (rule handleStore_inv [OF assms(1) sa hit])
  qed
qed

lemma reachable_inv: "reachable c \<Longrightarrow> cache_inv c"
proof (induction rule: reachable.induct)
  case (init nSets nBlocks nBytes hMiss hWrite hEviction)
  then show ?case by (rule init_inv)
next
  case (step c loadStore address c')
  then show ?case using cacheSimulator_inv by blast
qed

lemma run_trace_reachable:
  "reachable c \<Longrightarrow> run_trace c tr = Some c' \<Longrightarrow> reachable c'"
proof (induction tr arbitrary: c)
  case Nil
  then show ?case by simp
next
  case (Cons x tr)
  obtain ls a where x: "x = (ls, a)" by (cases x)
  from Cons.prems(2) obtain c1 where s: "cacheSimulator c ls a = Some c1"
    and r: "run_trace c1 tr = Some c'"
    by (auto simp: x split: Option.bind_splits)
  from Cons.prems(1) s have "reachable c1" by (rule reachable.step)
  then show ?case using r by (rule Cons.IH)
qed

lemma cacheSimulator_total:
  assumes "cache_inv c" "offsetBits c + indexBits c < 32"
  shows "\<exists>c'. cacheSimulator c loadStore a = Some c'"
proof -
  from assms(1) have vc: "valid_config c" and sh: "shape_ok c" by (simp_all add: cache_inv_def)
  note g = valid_configD [OF vc]
  note lg = geometry_logs [OF g(3) g(1)]
  let ?i = "signed_drop_bit (offsetBits c) a AND mask (indexBits c)"
  have ci: "calculateIndex a c = Some ?i" by (rule calculateIndex_eq [OF g(3) g(1)])
  have ct: "calculateTag a c = Some (signed_drop_bit (offsetBits c + indexBits c) a)"
    using calculateTag_eq [OF g(3) g(1), of a] assms(2) by simp
  have "sint (numSets c) = 2 ^ indexBits c" using lg(6) sint_pow2 [OF lg(4)] by simp
  with sint_take_bit_bounds [OF lg(4), of "signed_drop_bit (offsetBits c) a"] sh
  have "0 \<le> sint ?i" "nat (sint ?i) < length (sets c)"
    by (simp_all add: shape_ok_def)
  then obtain s where sa: "set_at c ?i = Some s" by (simp add: set_at_def)
  note ne = inv_set_nonempty [OF assms(1) sa]
  let ?t = "signed_drop_bit (offsetBits c + indexBits c) a"
  let ?hit = "first_way (\<lambda>slot. valid slot \<and> tag slot = ?t) s 0"
  have fb: "findBlock ?t ?i c = Some ?hit" by (simp add: findBlock_def sa)
  have "\<exists>c'. handleLoad c ?i ?t ?hit = Some c'"
  proof (cases ?hit)
    case None
    then show ?thesis by (simp add: handleLoad_miss [OF sa ne])
  next
    case (Some h)
    from first_way_0 [OF Some] have "h < length s" by simp
    then show ?thesis by (simp add: Some handleLoad_hit [OF sa])
  qed
  moreover have "\<exists>c'. handleStore c ?i ?t ?hit = Some c'"
  proof (cases ?hit)
    case None
    then show ?thesis
      by (cases "handleMiss c = ''no-write-allocate''")
         (simp_all add: handleStore_miss_allocate [OF sa ne] handleStore_miss_no_allocate)
  next
    case (Some h)
    from first_way_0 [OF Some] have "h < length s" by simp
    then show ?thesis by (simp add: Some handleStore_hit [OF sa])
  qed
  ultimately show ?thesis by (simp add: cacheSimulator_def ci ct fb)
qed

section \<open>The example states\<close>

lemma replicate_2: "replicate 2 x = [x, x]"
  by (simp add: numeral_2_eq_2)

lemma start_reachable:
  "reachable (cacheSetUp default_Cache 1 2 4 ''write-allocate'' ''write-back'' ''lru'')"
  by (rule reachable.init) (simp add: validateArguments_def checkPowTwo_def)

lemma full_cache_trace:
  "run_trace (cacheSetUp default_Cache 1 2 4 ''write-allocate'' ''write-back'' ''lru'')
     [(CHR ''l'', 0x1C), (CHR ''s'', 0x24), (CHR ''l'', 0x1C)] = Some full_cache"
  by (simp add: model_defs ilog2.simps replicate_2 full_cache_def)

lemma full_cache_reachable: "reachable full_cache"
  by (rule run_trace_reachable [OF start_reachable full_cache_trace])

lemma full_cache_set:
  "set_at full_cache 0 =
     Some [\<lparr>tag = 7, valid = True, dirty = False, load_ts = 0, access_ts = 203\<rparr>,
           \<lparr>tag = 9, valid = True, dirty = True, load_ts = 0, access_ts = 202\<rparr>]"
  by (simp add: full_cache_def set_at_def)

lemma full_cache_clean: "clean_inv full_cache"
  using reachable_inv [OF full_cache_reachable] by (simp add: cache_inv_def)

lemma full_cache_config:
  "totalCycles full_cache = 203" "numBytes full_cache = 4"
  "handleMiss full_cache \<noteq> ''no-write-allocate''" "handleWrite full_cache = ''write-back''"
  "handleEviction full_cache = ''lru''"
  "loadCount full_cache = 2" "loadHits full_cache = 1" "loadMisses full_cache = 1"
  "storeCount full_cache = 1" "storeHits full_cache = 0"
  by (simp_all add: full_cache_def)



lemma big_dirty_trace:
  "run_trace (cacheSetUp default_Cache 1 1 33554432 ''write-allocate'' ''write-back'' ''lru'')
     [(CHR ''s'', 0x0)] = Some big_dirty"
  by (simp add: model_defs ilog2.simps big_dirty_def)

lemma big_dirty_reachable: "reachable big_dirty"
proof (rule run_trace_reachable [OF _ big_dirty_trace])
  show "reachable
      (cacheSetUp default_Cache 1 1 33554432 ''write-allocate'' ''write-back'' ''lru'')"
    by (rule reachable.init) (simp add: validateArguments_def checkPowTwo_def)
qed






lemma through_cache_lookup:
  "calculateIndex 0 through_cache = Some 0" "calculateTag 0 through_cache = Some 0"
  "findBlock 0 0 through_cache = Some None"
  "handleMiss through_cache = ''no-write-allocate''"
  by (simp_all add: through_cache_def model_defs ilog2.simps)

section \<open>The replacement engine\<close>

text \<open>
  C5. For a set with at least one slot \<open>findReplacementBlock\<close> always returns a slot. If the
  set has an invalid slot it returns the first one in way order and leaves the cache as it
  was (no eviction cost). Otherwise it returns the slot whose timestamp is minimal,
  \<open>access_ts\<close> under LRU and \<open>load_ts\<close> under FIFO, and among slots with that timestamp the
  one at the lowest way, since the search moves on a strictly smaller timestamp only.
\<close>

theorem replacement_selection:
  assumes "set_at c index = Some s" and "s \<noteq> []"
  shows "\<exists>w c'. findReplacementBlock index c = Some (w, c') \<and> w < length s \<and>
           (if \<exists>slot \<in> set s. \<not> valid slot
            then \<not> valid (s ! w) \<and> (\<forall>j < w. valid (s ! j)) \<and> c' = c
            else (\<forall>j < length s. policy_ts c (s ! w) \<le> policy_ts c (s ! j))
               \<and> (\<forall>j < w. policy_ts c (s ! w) < policy_ts c (s ! j)))"
proof (cases "first_way (\<lambda>slot. valid slot = False) s 0")
  case None
  then have av: "\<forall>slot \<in> set s. valid slot" by (simp add: first_way_None_iff)
  let ?w = "min_way (policy_ts c) s"
  have "findReplacementBlock index c =
      Some (?w, if dirty (s ! ?w) \<and> handleWrite c = ''write-back'' then flush c index ?w else c)"
    using None by (simp add: findReplacementBlock_eq [OF assms])
  moreover note min_way_props [OF assms(2), of "policy_ts c"]
  ultimately show ?thesis using av by auto
next
  case (Some w)
  note f = first_way_0 [OF Some]
  then have "\<exists>slot \<in> set s. \<not> valid slot" by (metis nth_mem)
  moreover have "findReplacementBlock index c = Some (w, c)"
    using Some by (simp add: findReplacementBlock_eq [OF assms])
  ultimately show ?thesis using f by auto
qed

theorem replacement_selection_witness:
  "set_at full_cache 0 =
     Some [\<lparr>tag = 7, valid = True, dirty = False, load_ts = 0, access_ts = 203\<rparr>,
           \<lparr>tag = 9, valid = True, dirty = True, load_ts = 0, access_ts = 202\<rparr>]
   \<and> map_option fst (findReplacementBlock 0 full_cache) = Some 1"
proof -
  let ?s = "[\<lparr>tag = 7, valid = True, dirty = False, load_ts = 0, access_ts = 203\<rparr>,
           \<lparr>tag = 9, valid = True, dirty = True, load_ts = 0, access_ts = (202::u32)\<rparr>]"
  have ne: "?s \<noteq> []" by simp
  have pt: "policy_ts full_cache = access_ts"
    by (simp add: policy_ts_def full_cache_def)
  from replacement_selection [OF full_cache_set ne]
  obtain w c' where r: "findReplacementBlock 0 full_cache = Some (w, c')"
    and wl: "w < length ?s"
    and m: "\<forall>j < length ?s. policy_ts full_cache (?s ! w) \<le> policy_ts full_cache (?s ! j)"
    by auto
  from wl have "w = 0 \<or> w = 1" by auto
  moreover from m [rule_format, of 1]
  have "policy_ts full_cache (?s ! w) \<le> policy_ts full_cache (?s ! 1)"
    by simp
  ultimately have "w = 1" by (auto simp: pt)
  with r full_cache_set show ?thesis by simp
qed



section \<open>The access handlers\<close>

text \<open>
  C4. A store that misses under no-write-allocate increments \<open>storeCount\<close> and
  \<open>storeMisses\<close>, adds 100 cycles and changes nothing else: every slot of every set keeps
  its valid flag, tag, dirty flag and both timestamps. The same holds for the call of
  \<open>cacheSimulator\<close> that leads there.
\<close>

theorem store_miss_no_write_allocate:
  assumes "handleMiss c = ''no-write-allocate''"
  shows "handleStore c index t None =
           Some (c\<lparr>storeCount := storeCount c + 1, storeMisses := storeMisses c + 1,
                   totalCycles := totalCycles c + 100\<rparr>)
       \<and> (\<forall>c'. handleStore c index t None = Some c' \<longrightarrow> sets c' = sets c)
       \<and> (loadStore \<noteq> CHR ''l'' \<and> calculateIndex a c = Some index
          \<and> calculateTag a c = Some t \<and> findBlock t index c = Some None \<longrightarrow>
            cacheSimulator c loadStore a =
              Some (c\<lparr>storeCount := storeCount c + 1, storeMisses := storeMisses c + 1,
                      totalCycles := totalCycles c + 100\<rparr>))"
  by (simp add: handleStore_miss_no_allocate [OF assms] cacheSimulator_def)

theorem store_miss_no_write_allocate_witness:
  "handleMiss through_cache = ''no-write-allocate''
   \<and> handleStore through_cache 0 0 None =
       Some (through_cache\<lparr>storeCount := 1, storeMisses := 1, totalCycles := 100\<rparr>)
   \<and> cacheSimulator through_cache CHR ''s'' 0 =
       Some (through_cache\<lparr>storeCount := 1, storeMisses := 1, totalCycles := 100\<rparr>)"
proof -
  note t = store_miss_no_write_allocate [OF through_cache_lookup(4), of 0 0 "CHR ''s''" 0]
  have z: "storeCount through_cache = 0" "storeMisses through_cache = 0"
    "totalCycles through_cache = 0"
    by (simp_all add: through_cache_def cacheSetUp_def default_Cache_def)
  from t [THEN conjunct1]
  have 1: "handleStore through_cache 0 0 None =
       Some (through_cache\<lparr>storeCount := 1, storeMisses := 1, totalCycles := 100\<rparr>)"
    by (simp add: z)
  from t [THEN conjunct2, THEN conjunct2] through_cache_lookup
  have 2: "cacheSimulator through_cache CHR ''s'' 0 =
       Some (through_cache\<lparr>storeCount := 1, storeMisses := 1, totalCycles := 100\<rparr>)"
    by (simp add: z)
  from through_cache_lookup(4) 1 2 show ?thesis by (intro conjI)
qed



text \<open>
  C7. A store that hits, in such a state: \<open>storeCount\<close> and \<open>storeHits\<close> are incremented,
  the hit slot's \<open>access_ts\<close> becomes the cycle total from before the access whatever the
  eviction policy is, and then under write-back the slot is dirty and 1 cycle is added,
  otherwise the slot stays clean and 100 cycles are added.
\<close>

theorem store_hit:
  assumes "set_at c index = Some s" and "h < length s" and "clean_inv c"
  shows "handleStore c index t (Some h) =
           Some (c\<lparr>storeCount := storeCount c + 1, storeHits := storeHits c + 1,
                   sets := (sets c)[nat (sint index) :=
                      s[h := (s ! h)\<lparr>access_ts := totalCycles c,
                                     dirty := (handleWrite c = ''write-back'')\<rparr>]],
                   totalCycles :=
                     totalCycles c + (if handleWrite c = ''write-back'' then 1 else 100)\<rparr>)"
proof (cases "handleWrite c = ''write-back''")
  case True
  then show ?thesis by (simp add: handleStore_hit [OF assms(1,2)])
next
  case False
  with clean_invD(2) [OF assms(3,1,2)] have "\<not> dirty (s ! h)" by blast
  then have "(s ! h)\<lparr>access_ts := totalCycles c, dirty := False\<rparr>
      = (s ! h)\<lparr>access_ts := totalCycles c\<rparr>"
    by (cases "s ! h") simp
  with False show ?thesis by (simp add: handleStore_hit [OF assms(1,2)])
qed

theorem store_hit_witness:
  "reachable full_cache \<and> clean_inv full_cache
   \<and> map_option (\<lambda>c. (storeCount c, storeHits c, totalCycles c, slot_at c 0 0))
        (handleStore full_cache 0 7 (Some 0))
      = Some (2, 1, 204,
              Some \<lparr>tag = 7, valid = True, dirty = True, load_ts = 0, access_ts = 203\<rparr>)"
proof -
  have h: "0 < length [\<lparr>tag = 7, valid = True, dirty = False, load_ts = 0, access_ts = 203\<rparr>,
           \<lparr>tag = 9, valid = True, dirty = True, load_ts = 0, access_ts = (202::u32)\<rparr>]"
    by simp
  note t = store_hit [OF full_cache_set h full_cache_clean, of 7]
  have s0: "sets full_cache =
      [[\<lparr>tag = 7, valid = True, dirty = False, load_ts = 0, access_ts = 203\<rparr>,
        \<lparr>tag = 9, valid = True, dirty = True, load_ts = 0, access_ts = 202\<rparr>]]"
    by (simp add: full_cache_def)
  from t have "map_option (\<lambda>c. (storeCount c, storeHits c, totalCycles c, slot_at c 0 0))
        (handleStore full_cache 0 7 (Some 0))
      = Some (2, 1, 204,
              Some \<lparr>tag = 7, valid = True, dirty = True, load_ts = 0, access_ts = 203\<rparr>)"
    by (simp add: full_cache_config s0 slot_at_def set_at_def)
  with full_cache_reachable full_cache_clean show ?thesis by (intro conjI)
qed

section \<open>Uniqueness of tags\<close>

text \<open>
  C8. In every state the program reaches, no two valid slots of a set carry the same tag,
  and every access from such a state leads to a state with the same property: a tag is
  installed only after the lookup has found no valid slot with it in the set. Such an
  access exists: the simulator returns a state for every operation and address as long as
  the tag shift is defined.
\<close>

theorem tags_unique_in_reachable_states:
  assumes "reachable c"
  shows "(\<forall>s \<in> set (sets c). unique_tags s)
       \<and> (\<forall>loadStore a c'. cacheSimulator c loadStore a = Some c' \<longrightarrow>
            (\<forall>s \<in> set (sets c'). unique_tags s))
       \<and> (offsetBits c + indexBits c < 32 \<longrightarrow>
            (\<forall>loadStore a. \<exists>c'. cacheSimulator c loadStore a = Some c'))"
proof -
  note i = reachable_inv [OF assms]
  have 1: "\<forall>s \<in> set (sets c). unique_tags s" using i by (simp add: cache_inv_def)
  have "\<forall>s \<in> set (sets c'). unique_tags s" if "cacheSimulator c loadStore a = Some c'"
    for loadStore a c'
    using cacheSimulator_inv [OF i that] by (simp add: cache_inv_def)
  then have 2: "\<forall>loadStore a c'. cacheSimulator c loadStore a = Some c' \<longrightarrow>
            (\<forall>s \<in> set (sets c'). unique_tags s)" by blast
  have 3: "offsetBits c + indexBits c < 32 \<longrightarrow>
            (\<forall>loadStore a. \<exists>c'. cacheSimulator c loadStore a = Some c')"
    using cacheSimulator_total [OF i] by blast
  from 1 2 3 show ?thesis by (intro conjI)
qed

theorem tags_unique_in_reachable_states_witness:
  "case run_trace (cacheSetUp default_Cache 1 2 4 ''write-allocate'' ''write-back'' ''lru'')
          [(CHR ''s'', 0x0), (CHR ''l'', 0x4), (CHR ''l'', 0x0)] of
     None \<Rightarrow> False
   | Some c \<Rightarrow> reachable c \<and> map (map tag) (sets c) = [[0, 1]]
               \<and> (\<forall>s \<in> set (sets c). unique_tags s)"
proof -
  let ?c0 = "cacheSetUp default_Cache 1 2 4 ''write-allocate'' ''write-back'' ''lru''"
  let ?tr = "[(CHR ''s'', 0x0), (CHR ''l'', 0x4), (CHR ''l'', 0x0)] :: (char \<times> i32) list"
  have "\<exists>c. run_trace ?c0 ?tr = Some c \<and> map (map tag) (sets c) = [[0, 1]]"
    by (simp add: model_defs ilog2.simps replicate_2)
  then obtain c where r: "run_trace ?c0 ?tr = Some c"
    and t: "map (map tag) (sets c) = [[0, 1]]" by (elim exE conjE)
  have rc: "reachable c" by (rule run_trace_reachable [OF start_reachable r])
  from tags_unique_in_reachable_states [OF rc]
  have u: "\<forall>s \<in> set (sets c). unique_tags s" by (rule conjunct1)
  show ?thesis unfolding r using rc t u by simp
qed

section \<open>The statistics\<close>








section \<open>Dispatch on the operation character\<close>



section \<open>A dirty eviction, end to end\<close>

text \<open>
  C3. One set of one 4-byte block, write-allocate, write-back, LRU: the trace
  \<open>s 0x0\<close>, \<open>l 0x4\<close> costs 302 cycles in total, with one store miss and one load miss.
\<close>

theorem scenario_dirty_eviction:
  "map_option (\<lambda>c. (totalCycles c, storeMisses c, loadMisses c))
     (run_trace (cacheSetUp default_Cache 1 1 4 ''write-allocate'' ''write-back'' ''lru'')
        [(CHR ''s'', 0x0), (CHR ''l'', 0x4)])
   = Some (302, 1, 1)
   \<and> map_option totalCycles
     (run_trace (cacheSetUp default_Cache 1 1 4 ''write-allocate'' ''write-back'' ''lru'')
        [(CHR ''s'', 0x0)])
   = Some 101"
  by (simp add: model_defs ilog2.simps Let_def)

end
